theory Spec2Isabelle
  imports Main "HOL-Library.Sublist"
begin

section \<open>Edition search paths (EditionManager)\<close>

text \<open>
  Scala's \<open>List.distinct\<close> walks the list once with the set of elements already seen and
  keeps an element only the first time it meets it. (HOL's \<open>remdups\<close> keeps the last
  occurrence instead, so it is not used here.)
\<close>

fun distinct_from :: "'a list \<Rightarrow> 'a list \<Rightarrow> 'a list" where
  "distinct_from seen [] = []"
| "distinct_from seen (x # xs) =
     (if x \<in> set seen then distinct_from seen xs else x # distinct_from (x # seen) xs)"

definition distinct_list :: "'a list \<Rightarrow> 'a list" where
  "distinct_list xs = distinct_from [] xs"

type_synonym Path = string

record DistributionPaths =
  cachedEditions :: Path
  editionSearchPaths :: "Path list"

record DistributionManager =
  paths :: DistributionPaths

record LanguageHome =
  editions :: Path

record GlobalConfig =
  editionProviders :: "string list"

datatype EditionProvider =
  UpdatingEditionProvider "Path list" Path "string list"
| FileSystemEditionProvider "Path list"

text \<open>\<open>Option.toList\<close>.\<close>

fun toList :: "'a option \<Rightarrow> 'a list" where
  "toList None = []"
| "toList (Some x) = [x]"

text \<open>\<open>EditionManager.getSearchPaths\<close>.\<close>

definition getSearchPaths :: "DistributionManager \<Rightarrow> LanguageHome option \<Rightarrow> Path list" where
  "getSearchPaths distributionManager languageHome =
     (let paths0 = toList (map_option editions languageHome)
                   @ editionSearchPaths (paths distributionManager)
      in distinct_list paths0)"

text \<open>
  \<open>EditionManager.makeEditionProvider\<close>. The global configuration is read through
  \<open>GlobalConfigurationManager\<close>, which is defined elsewhere in the repository: its
  \<open>getConfig\<close> is the parameter \<open>getConfig\<close>. The two providers are kept as the
  constructor calls with their arguments.
\<close>

definition makeEditionProvider ::
  "(DistributionManager \<Rightarrow> GlobalConfig) \<Rightarrow> DistributionManager \<Rightarrow> LanguageHome option
     \<Rightarrow> bool \<Rightarrow> EditionProvider" where
  "makeEditionProvider getConfig distributionManager languageHome updating =
     (let config = getConfig distributionManager;
          searchPaths = getSearchPaths distributionManager languageHome;
          cachePath = cachedEditions (paths distributionManager)
      in if updating
         then UpdatingEditionProvider searchPaths cachePath (editionProviders config)
         else (let actualSearchPaths = distinct_list (searchPaths @ [cachePath])
               in FileSystemEditionProvider actualSearchPaths))"

text \<open>
  \<open>before xs a b\<close>: \<open>a\<close> occurs in \<open>xs\<close> ahead of the first occurrence of \<open>b\<close>.
\<close>

definition before :: "'a list \<Rightarrow> 'a \<Rightarrow> 'a \<Rightarrow> bool" where
  "before xs a b = (a \<in> set (takeWhile (\<lambda>z. z \<noteq> b) xs))"


section \<open>The \<open>library/getPackage\<close> request handler (LibraryGetPackageHandler)\<close>

subsection \<open>Values exchanged with the handler\<close>

text \<open>
  Modelled from the spec: the types below (\<open>LibraryName\<close>, \<open>SemVer\<close>, the package
  \<open>Config\<close>, the JSON-RPC messages, \<open>LocalLibraryManagerProtocol\<close>) are declared elsewhere
  in the repository; they are given here with the fields of the package descriptor and of
  the get-package query, typed as the handler uses them (the license of a descriptor is a
  string, empty when none is declared). A component group is known by its name only: the
  handler asks nothing of a group but whether the lists are empty. \<open>OtherFailure\<close> stands
  for the failures of the protocol other than the malformed version.
\<close>

datatype LibraryName = LibraryName string string

datatype SemVer = SemVer nat nat nat

datatype Throwable = Throwable string

type_synonym Id = string

record ComponentGroups =
  newGroups :: "string list"
  extendedGroups :: "string list"

record Config =
  namespace :: string
  moduleName :: string
  license :: string
  componentGroups :: "ComponentGroups option"

datatype LibraryComponentGroups = LibraryComponentGroups "string list" "string list"

datatype LibraryVersion =
  LocalLibraryVersion
| PublishedLibraryVersion string string

datatype Params = Params string string LibraryVersion

datatype Result =
  Result (result_license: "string option") (result_componentGroups: "LibraryComponentGroups option")

datatype Error = Errors_RequestTimeout | ServiceError int string

datatype ResponseError = ResponseError "Id option" Error

datatype ResponseResult = ResponseResult Id Result

datatype GetPackageResponse = GetPackageResponse LibraryName string "ComponentGroups option"

datatype Failure = InvalidSemverVersionError string | OtherFailure string

text \<open>
  An actor receives values of any type; \<open>Message\<close> is the sum of those that reach or
  leave this handler.
\<close>

datatype Message =
  Request Id Params
| RequestTimeout
| GetPackageResponse_msg GetPackageResponse
| Failure_msg Failure
| Status_Failure Throwable
| GetPackage LibraryName
| ResponseError_msg ResponseError
| ResponseResult_msg ResponseResult

datatype ActorRef = Self | Actor string

type_synonym Cancellable = nat

text \<open>The calls that leave the handler: to the published-library cache and to a repository.\<close>

datatype IO =
  FindCachedLibrary LibraryName SemVer
| ReadPackage Path
| FetchPackageConfig string LibraryName SemVer

text \<open>
  What the handler is constructed with (\<open>timeout\<close>, \<open>localLibraryManager\<close>, the cache) and
  the functions it calls that are defined elsewhere in the repository, as parameters:
  \<open>SemVer.parse\<close>, the cache's \<open>findCachedLibrary\<close>, \<open>readPackage\<close> of a cached library,
  the repository's \<open>fetchPackageConfig\<close> (the eventual outcome of the download),
  \<open>LibraryComponentGroups.fromComponentGroups\<close>, and the two mappers of
  \<open>LocalLibraryManagerFailureMapper\<close>.
\<close>

record env =
  timeout :: nat
  localLibraryManager :: ActorRef
  semver_parse :: "string \<Rightarrow> SemVer option"
  findCachedLibrary :: "LibraryName \<Rightarrow> SemVer \<Rightarrow> Path option"
  readPackage :: "Path \<Rightarrow> Throwable + Config"
  fetchPackageConfig :: "string \<Rightarrow> LibraryName \<Rightarrow> SemVer \<Rightarrow> Throwable + Config"
  fromComponentGroups :: "LibraryName \<Rightarrow> ComponentGroups \<Rightarrow> LibraryComponentGroups"
  mapFailure :: "Failure \<Rightarrow> ResponseError"
  mapException :: "Throwable \<Rightarrow> Error"

subsection \<open>Cache lookup and fetch\<close>

text \<open>
  Each function returns its value together with the calls it made, in order. A
  \<open>Try\<close> and a completed \<open>Future\<close> are sums with the exception on the left.
\<close>

definition packageResponse :: "Config \<Rightarrow> GetPackageResponse" where
  "packageResponse config =
     GetPackageResponse (LibraryName (namespace config) (moduleName config))
       (license config) (componentGroups config)"

definition getCachedPackage ::
  "env \<Rightarrow> LibraryName \<Rightarrow> SemVer \<Rightarrow> (Throwable + GetPackageResponse) option \<times> IO list" where
  "getCachedPackage e libraryName version =
     (case findCachedLibrary e libraryName version of
        None \<Rightarrow> (None, [FindCachedLibrary libraryName version])
      | Some libraryPath \<Rightarrow>
          (Some (map_sum id packageResponse (readPackage e libraryPath)),
           [FindCachedLibrary libraryName version, ReadPackage libraryPath]))"

definition fetchPublishedPackage ::
  "env \<Rightarrow> LibraryName \<Rightarrow> SemVer \<Rightarrow> string \<Rightarrow> (Throwable + GetPackageResponse) \<times> IO list" where
  "fetchPublishedPackage e libraryName version repositoryUrl =
     (map_sum id packageResponse (fetchPackageConfig e repositoryUrl libraryName version),
      [FetchPackageConfig repositoryUrl libraryName version])"

definition getOrFetchPublishedPackage ::
  "env \<Rightarrow> LibraryName \<Rightarrow> SemVer \<Rightarrow> string \<Rightarrow> (Throwable + GetPackageResponse) \<times> IO list" where
  "getOrFetchPublishedPackage e libraryName version repositoryUrl =
     (case getCachedPackage e libraryName version of
        (Some response, calls) \<Rightarrow> (response, calls)
      | (None, calls) \<Rightarrow>
          (case fetchPublishedPackage e libraryName version repositoryUrl of
             (fetched, calls') \<Rightarrow> (fetched, calls @ calls')))"

subsection \<open>The two stages of the actor\<close>

datatype Stage =
  RequestStage
| ResponseStage Id ActorRef Cancellable
| Stopped

text \<open>
  What handling one message asks of the actor system. \<open>PipeToSelf m\<close>: a future was piped
  to the actor and will deliver \<open>m\<close> when it completes.
\<close>

datatype Action =
  Tell ActorRef Message
| TellSelf Message
| PipeToSelf Message
| Call IO
| ScheduleOnce Cancellable nat Message
| Cancel Cancellable
| Become Stage
| Stop

text \<open>\<open>Option.unless\<close>.\<close>

definition unless :: "bool \<Rightarrow> 'a \<Rightarrow> 'a option" where
  "unless cond a = (if cond then None else Some a)"

text \<open>What \<open>pipeTo\<close> sends when the future completes.\<close>

fun piped :: "Throwable + GetPackageResponse \<Rightarrow> Message" where
  "piped (Inl exception) = Status_Failure exception"
| "piped (Inr response) = GetPackageResponse_msg response"

text \<open>
  A \<open>Receive\<close> is a partial function: \<open>None\<close> is a message the stage does not handle
  (it is logged and dropped). \<open>requestStage\<close> is given the sender of the message and the
  handle that \<open>scheduleOnce\<close> returns. Writing to the log is not modelled.
\<close>

fun requestStage :: "env \<Rightarrow> Cancellable \<Rightarrow> ActorRef \<Rightarrow> Message \<Rightarrow> Action list option" where
  "requestStage e cancellable sender (Request reqId (Params ns nm version)) =
     (let libraryName = LibraryName ns nm;
          dispatch =
            (case version of
               LocalLibraryVersion \<Rightarrow> [Tell (localLibraryManager e) (GetPackage libraryName)]
             | PublishedLibraryVersion version repositoryUrl \<Rightarrow>
                 (case semver_parse e version of
                    Some semVerVersion \<Rightarrow>
                      (case getOrFetchPublishedPackage e libraryName semVerVersion repositoryUrl of
                         (future, calls) \<Rightarrow> map Call calls @ [PipeToSelf (piped future)])
                  | None \<Rightarrow> [TellSelf (Failure_msg (InvalidSemverVersionError version))]))
      in Some (dispatch @
               [ScheduleOnce cancellable (timeout e) RequestTimeout,
                Become (ResponseStage reqId sender cancellable)]))"
| "requestStage e cancellable sender _ = None"

fun responseStage :: "env \<Rightarrow> Id \<Rightarrow> ActorRef \<Rightarrow> Cancellable \<Rightarrow> Message \<Rightarrow> Action list option" where
  "responseStage e reqId replyTo cancellable RequestTimeout =
     Some [Tell replyTo (ResponseError_msg (ResponseError (Some reqId) Errors_RequestTimeout)),
           Stop]"
| "responseStage e reqId replyTo cancellable
       (GetPackageResponse_msg (GetPackageResponse libraryName lic groupsOpt)) =
     Some [Tell replyTo (ResponseResult_msg (ResponseResult reqId
             (Result (unless (lic = []) lic)
                (Option.bind groupsOpt (\<lambda>groups.
                   unless (newGroups groups = [] \<and> extendedGroups groups = [])
                     (fromComponentGroups e libraryName groups)))))),
           Cancel cancellable,
           Stop]"
| "responseStage e reqId replyTo cancellable (Failure_msg failure) =
     Some [Tell replyTo (ResponseError_msg (mapFailure e failure)),
           Cancel cancellable,
           Stop]"
| "responseStage e reqId replyTo cancellable (Status_Failure exception) =
     Some [Tell replyTo (ResponseError_msg (ResponseError (Some reqId) (mapException e exception))),
           Cancel cancellable,
           Stop]"
| "responseStage e reqId replyTo cancellable _ = None"

subsection \<open>The actor system around one handler\<close>

text \<open>
  One handler instance with its mailbox, its armed timers, the futures piped to it that
  have not completed, the messages it has sent (with their destination), the calls it has
  made, and the number of timers it has scheduled (the next handle).
\<close>

record System =
  behaviour :: Stage
  mailbox :: "(ActorRef \<times> Message) list"
  timers :: "(Cancellable \<times> Message) list"
  futures :: "Message list"
  sent :: "(ActorRef \<times> Message) list"
  called :: "IO list"
  scheduled :: nat

definition init :: System where
  "init = \<lparr>behaviour = RequestStage, mailbox = [], timers = [], futures = [], sent = [],
           called = [], scheduled = 0\<rparr>"

fun perform :: "Action \<Rightarrow> System \<Rightarrow> System" where
  "perform (Tell ref m) s = s\<lparr>sent := sent s @ [(ref, m)]\<rparr>"
| "perform (TellSelf m) s = s\<lparr>mailbox := mailbox s @ [(Self, m)]\<rparr>"
| "perform (PipeToSelf m) s = s\<lparr>futures := futures s @ [m]\<rparr>"
| "perform (Call c) s = s\<lparr>called := called s @ [c]\<rparr>"
| "perform (ScheduleOnce c d m) s =
     s\<lparr>timers := timers s @ [(c, m)], scheduled := Suc (scheduled s)\<rparr>"
| "perform (Cancel c) s = s\<lparr>timers := filter (\<lambda>t. fst t \<noteq> c) (timers s)\<rparr>"
| "perform (Become st) s = s\<lparr>behaviour := st\<rparr>"
| "perform Stop s = s\<lparr>behaviour := Stopped\<rparr>"

text \<open>
  \<open>receive\<close>: the current behaviour applied to a message. A stopped actor handles
  nothing: what is left in its mailbox goes to dead letters.
\<close>

fun receive :: "env \<Rightarrow> System \<Rightarrow> ActorRef \<Rightarrow> Message \<Rightarrow> Action list option" where
  "receive e s sender m =
     (case behaviour s of
        RequestStage \<Rightarrow> requestStage e (scheduled s) sender m
      | ResponseStage reqId replyTo cancellable \<Rightarrow> responseStage e reqId replyTo cancellable m
      | Stopped \<Rightarrow> None)"

text \<open>
  What can happen to the handler: a message arrives from another actor, an armed timer
  fires, the oldest pending future completes, or the actor takes the next message from
  its mailbox. A schedule is a list of such events.
\<close>

datatype Event =
  Arrive ActorRef Message
| TimerFires Cancellable
| FutureCompletes
| Process

fun step :: "env \<Rightarrow> Event \<Rightarrow> System \<Rightarrow> System" where
  "step e (Arrive sender m) s = s\<lparr>mailbox := mailbox s @ [(sender, m)]\<rparr>"
| "step e (TimerFires c) s =
     (case map_of (timers s) c of
        None \<Rightarrow> s
      | Some m \<Rightarrow> s\<lparr>mailbox := mailbox s @ [(Self, m)],
                    timers := filter (\<lambda>t. fst t \<noteq> c) (timers s)\<rparr>)"
| "step e FutureCompletes s =
     (case futures s of
        [] \<Rightarrow> s
      | m # ms \<Rightarrow> s\<lparr>mailbox := mailbox s @ [(Self, m)], futures := ms\<rparr>)"
| "step e Process s =
     (case mailbox s of
        [] \<Rightarrow> s
      | (sender, m) # rest \<Rightarrow>
          (case receive e s sender m of
             None \<Rightarrow> s\<lparr>mailbox := rest\<rparr>
           | Some actions \<Rightarrow> fold perform actions (s\<lparr>mailbox := rest\<rparr>)))"

fun exec :: "env \<Rightarrow> Event list \<Rightarrow> System \<Rightarrow> System" where
  "exec e [] s = s"
| "exec e (ev # evs) s = exec e evs (step e ev s)"

text \<open>The messages sent to one destination, in order.\<close>

definition sent_to :: "ActorRef \<Rightarrow> System \<Rightarrow> Message list" where
  "sent_to ref s = map snd (filter (\<lambda>d. fst d = ref) (sent s))"

text \<open>
  Two states of the system agree up to \<open>f\<close> when they differ at most in the messages
  waiting in the mailbox, and those are equal after \<open>f\<close>.
\<close>

definition agree :: "(Message \<Rightarrow> Message) \<Rightarrow> System \<Rightarrow> System \<Rightarrow> bool" where
  "agree f s1 s2 =
     (behaviour s1 = behaviour s2
      \<and> map (apsnd f) (mailbox s1) = map (apsnd f) (mailbox s2)
      \<and> timers s1 = timers s2
      \<and> futures s1 = futures s2
      \<and> sent s1 = sent s2
      \<and> called s1 = called s2
      \<and> scheduled s1 = scheduled s2)"

text \<open>\<open>erase a b\<close> reads the message \<open>b\<close> as \<open>a\<close> and leaves every other message.\<close>

definition erase :: "Message \<Rightarrow> Message \<Rightarrow> Message \<Rightarrow> Message" where
  "erase a b m = (if m = b then a else m)"

text \<open>The calls that go to the network.\<close>

fun is_network_call :: "IO \<Rightarrow> bool" where
  "is_network_call (FetchPackageConfig url libraryName version) = True"
| "is_network_call (FindCachedLibrary libraryName version) = False"
| "is_network_call (ReadPackage libraryPath) = False"

section \<open>Edition resolution (EditionResolver)\<close>

text \<open>
  Modelled from the spec: \<open>EditionResolver.resolve\<close>, to which
  \<open>EditionManager.resolveEdition\<close> delegates, the edition types and the edition provider
  are defined elsewhere in the repository. The definitions below follow the component design of
  the specification: a raw edition has an optional parent name, an optional engine
  version, an optional list of repositories and an optional list of required libraries;
  resolving an edition resolves its parent first and merges; the names visited on the
  current path are passed down, and meeting one of them again is the cycle error.
\<close>

datatype Repository = Repository string string

datatype LibraryRequirement = LibraryRequirement string string string

record RawEdition =
  parent :: "string option"
  engineVersion :: "SemVer option"
  repositories :: "Repository list option"
  libraries :: "LibraryRequirement list option"

record ResolvedEdition =
  resolvedEngineVersion :: "SemVer option"
  resolvedRepositories :: "Repository list"
  resolvedLibraries :: "LibraryRequirement list"

datatype EditionError =
  EditionNotFound string
| EditionCycleDetected string
| EditionParseError string

text \<open>
  Modelled from the spec: what the edition provider finds, by edition name, in priority
  order: a document that does not parse (\<open>Inl\<close>, with the parser's message) or a raw
  edition.
\<close>

type_synonym EditionStore = "(string \<times> (string + RawEdition)) list"

text \<open>Modelled from the spec: an optional list; an absent list contributes no entries.\<close>

fun entries :: "'a list option \<Rightarrow> 'a list" where
  "entries None = []"
| "entries (Some xs) = xs"

text \<open>
  Modelled from the spec: explicit fields of the child override the parent's; lists are
  concatenated child-then-parent and de-duplicated by equality, keeping the first
  occurrence.
\<close>

definition merge :: "RawEdition \<Rightarrow> ResolvedEdition \<Rightarrow> ResolvedEdition" where
  "merge raw parentResolved =
     \<lparr>resolvedEngineVersion =
        (case engineVersion raw of
           Some v \<Rightarrow> Some v
         | None \<Rightarrow> resolvedEngineVersion parentResolved),
      resolvedRepositories =
        distinct_list (entries (repositories raw) @ resolvedRepositories parentResolved),
      resolvedLibraries =
        distinct_list (entries (libraries raw) @ resolvedLibraries parentResolved)\<rparr>"

text \<open>Modelled from the spec: a root edition (no parent) resolves to itself.\<close>

definition root :: "RawEdition \<Rightarrow> ResolvedEdition" where
  "root raw =
     \<lparr>resolvedEngineVersion = engineVersion raw,
      resolvedRepositories = entries (repositories raw),
      resolvedLibraries = entries (libraries raw)\<rparr>"

text \<open>
  Modelled from the spec: the recursive resolution with the names visited on the current
  path. It is a total function: each recursive call adds to \<open>visited\<close> a name of the
  store that was not in it.
\<close>

function resolveEdition ::
  "EditionStore \<Rightarrow> string list \<Rightarrow> RawEdition \<Rightarrow> EditionError + ResolvedEdition" where
  "resolveEdition store visited raw =
     (case parent raw of
        None \<Rightarrow> Inr (root raw)
      | Some parentName \<Rightarrow>
          if parentName \<in> set visited then Inl (EditionCycleDetected parentName)
          else (case map_of store parentName of
                  None \<Rightarrow> Inl (EditionNotFound parentName)
                | Some (Inl message) \<Rightarrow> Inl (EditionParseError parentName)
                | Some (Inr parentRaw) \<Rightarrow>
                    (case resolveEdition store (parentName # visited) parentRaw of
                       Inl err \<Rightarrow> Inl err
                     | Inr parentResolved \<Rightarrow> Inr (merge raw parentResolved))))"
  by pat_completeness auto
termination
proof (relation "measure (\<lambda>(store, visited, raw). card (fst ` set store - set visited))")
  show "wf (measure (\<lambda>(store, visited, raw). card (fst ` set store - set visited)))"
    by simp
next
  fix store :: EditionStore and visited :: "string list" and raw :: RawEdition
    and parentName y parentRaw
  assume fresh: "parentName \<notin> set visited"
    and found: "map_of store parentName = Some y"
  from found have "parentName \<in> fst ` set store"
    by (auto dest!: map_of_SomeD intro: rev_image_eqI)
  with fresh have "fst ` set store - set (parentName # visited)
                   \<subset> fst ` set store - set visited"
    by auto
  then have "card (fst ` set store - set (parentName # visited))
             < card (fst ` set store - set visited)"
    by (intro psubset_card_mono) simp_all
  then show "((store, parentName # visited, parentRaw), (store, visited, raw))
             \<in> measure (\<lambda>(store, visited, raw). card (fst ` set store - set visited))"
    by simp
qed

declare resolveEdition.simps [simp del]

text \<open>Modelled from the spec: \<open>resolve\<close> starts with nothing visited.\<close>

definition resolve :: "EditionStore \<Rightarrow> RawEdition \<Rightarrow> EditionError + ResolvedEdition" where
  "resolve store raw = resolveEdition store [] raw"

text \<open>
  Modelled from the spec: the same resolution with a bound on the depth of the recursion:
  \<open>None\<close> when \<open>depth\<close> nested calls do not suffice.
\<close>

fun resolveWithin ::
  "nat \<Rightarrow> EditionStore \<Rightarrow> string list \<Rightarrow> RawEdition
     \<Rightarrow> (EditionError + ResolvedEdition) option" where
  "resolveWithin 0 store visited raw = None"
| "resolveWithin (Suc depth) store visited raw =
     (case parent raw of
        None \<Rightarrow> Some (Inr (root raw))
      | Some parentName \<Rightarrow>
          if parentName \<in> set visited then Some (Inl (EditionCycleDetected parentName))
          else (case map_of store parentName of
                  None \<Rightarrow> Some (Inl (EditionNotFound parentName))
                | Some (Inl message) \<Rightarrow> Some (Inl (EditionParseError parentName))
                | Some (Inr parentRaw) \<Rightarrow>
                    (case resolveWithin depth store (parentName # visited) parentRaw of
                       None \<Rightarrow> None
                     | Some (Inl err) \<Rightarrow> Some (Inl err)
                     | Some (Inr parentResolved) \<Rightarrow> Some (Inr (merge raw parentResolved)))))"

text \<open>
  \<open>EditionManager.resolveEdition\<close>: the resolver's \<open>Either\<close> as a \<open>Try\<close>, which keeps
  the outcome.
\<close>

definition manager_resolveEdition ::
  "EditionStore \<Rightarrow> RawEdition \<Rightarrow> EditionError + ResolvedEdition" where
  "manager_resolveEdition editionProvider edition = resolve editionProvider edition"

text \<open>
  \<open>ancestor_path store raw names\<close>: \<open>names\<close> are the successive parents met from \<open>raw\<close>:
  the parent of \<open>raw\<close>, the parent of the edition found under that name, and so on.
\<close>

fun ancestor_path :: "EditionStore \<Rightarrow> RawEdition \<Rightarrow> string list \<Rightarrow> bool" where
  "ancestor_path store raw [] = True"
| "ancestor_path store raw [n] = (parent raw = Some n)"
| "ancestor_path store raw (n # m # ns) =
     (parent raw = Some n \<and>
      (case map_of store n of
         Some (Inr parentRaw) \<Rightarrow> ancestor_path store parentRaw (m # ns)
       | _ \<Rightarrow> False))"

section \<open>Example values\<close>

text \<open>
  A package descriptor of library \<open>Standard.Table\<close> with license MIT and no component
  groups, a handler whose cache is empty and whose repository serves that descriptor, one
  whose cache holds the library, and one whose cached descriptor does not parse.
\<close>

definition example_config :: Config where
  "example_config =
     \<lparr>namespace = ''Standard'', moduleName = ''Table'', license = ''MIT'',
      componentGroups = None\<rparr>"

definition example_env :: env where
  "example_env =
     \<lparr>timeout = 10,
      localLibraryManager = Actor ''localLibraryManager'',
      semver_parse = (\<lambda>v. if v = ''1.2.0'' then Some (SemVer 1 2 0) else None),
      findCachedLibrary = (\<lambda>libraryName version. None),
      readPackage = (\<lambda>libraryPath. Inl (Throwable ''malformed package descriptor'')),
      fetchPackageConfig = (\<lambda>url libraryName version. Inr example_config),
      fromComponentGroups =
        (\<lambda>libraryName groups. LibraryComponentGroups (newGroups groups) (extendedGroups groups)),
      mapFailure = (\<lambda>failure. ResponseError None (ServiceError 1 ''library failure'')),
      mapException = (\<lambda>exception. ServiceError 2 ''library exception'')\<rparr>"

definition corrupt_env :: env where
  "corrupt_env =
     example_env\<lparr>findCachedLibrary := (\<lambda>libraryName version. Some ''/cache/Standard/Table/1.2.0'')\<rparr>"

definition cached_env :: env where
  "cached_env = corrupt_env\<lparr>readPackage := (\<lambda>libraryPath. Inr example_config)\<rparr>"

definition example_request :: "string \<Rightarrow> Message" where
  "example_request url =
     Request ''7'' (Params ''Standard'' ''Table'' (PublishedLibraryVersion ''1.2.0'' url))"

text \<open>A distribution whose edition search paths repeat entries.\<close>

definition example_distribution :: DistributionManager where
  "example_distribution =
     \<lparr>paths = \<lparr>cachedEditions = ''/b'',
                editionSearchPaths = [''/a'', ''/home/editions'', ''/b'', ''/a'']\<rparr>\<rparr>"

text \<open>
  The editions of the merge example: \<open>P\<close> with engine 1.0 and repositories A, B; its child
  with repositories B, C; and a store in which \<open>P\<close> and \<open>Q\<close> name each other as parent.
\<close>

definition repo_A :: Repository where "repo_A = Repository ''A'' ''https://a.example''"

definition repo_B :: Repository where "repo_B = Repository ''B'' ''https://b.example''"

definition repo_C :: Repository where "repo_C = Repository ''C'' ''https://c.example''"

definition edition_P :: RawEdition where
  "edition_P =
     \<lparr>parent = None, engineVersion = Some (SemVer 1 0 0),
      repositories = Some [repo_A, repo_B], libraries = None\<rparr>"

definition edition_C :: RawEdition where
  "edition_C =
     \<lparr>parent = Some ''P'', engineVersion = None,
      repositories = Some [repo_B, repo_C], libraries = None\<rparr>"

definition cyclic_store :: EditionStore where
  "cyclic_store =
     [(''P'', Inr \<lparr>parent = Some ''Q'', engineVersion = None, repositories = None,
                   libraries = None\<rparr>),
      (''Q'', Inr \<lparr>parent = Some ''P'', engineVersion = None, repositories = None,
                   libraries = None\<rparr>)]"

section \<open>Properties of the search paths\<close>

subsection \<open>Facts about \<open>distinct_list\<close>\<close>

lemma set_distinct_from: "set (distinct_from seen xs) = set xs - set seen"
  by (induction xs arbitrary: seen) auto

lemma distinct_distinct_from: "distinct (distinct_from seen xs)"
  by (induction xs arbitrary: seen) (auto simp: set_distinct_from)

lemma distinct_from_filter:
  "distinct_from seen xs = filter (\<lambda>x. x \<notin> set seen) (distinct_from [] xs)"
proof (induction xs arbitrary: seen)
  case Nil
  show ?case by simp
next
  case (Cons x xs)
  have a: "distinct_from (x # seen) xs = filter (\<lambda>y. y \<notin> set (x # seen)) (distinct_from [] xs)"
    by (rule Cons.IH)
  have b: "distinct_from [x] xs = filter (\<lambda>y. y \<notin> set [x]) (distinct_from [] xs)"
    by (rule Cons.IH)
  have c: "distinct_from seen xs = filter (\<lambda>y. y \<notin> set seen) (distinct_from [] xs)"
    by (rule Cons.IH)
  show ?case
  proof (cases "x \<in> set seen")
    case True
    have "filter (\<lambda>y. y \<notin> set seen) (filter (\<lambda>y. y \<notin> set [x]) (distinct_from [] xs))
          = filter (\<lambda>y. y \<notin> set seen) (distinct_from [] xs)"
      using True by (auto intro: filter_cong)
    with True b c show ?thesis by simp
  next
    case False
    have "filter (\<lambda>y. y \<notin> set seen) (filter (\<lambda>y. y \<notin> set [x]) (distinct_from [] xs))
          = filter (\<lambda>y. y \<notin> set (x # seen)) (distinct_from [] xs)"
      by (auto intro: filter_cong)
    with False a b show ?thesis by simp
  qed
qed

lemma distinct_from_id:
  "distinct xs \<Longrightarrow> set xs \<inter> set seen = {} \<Longrightarrow> distinct_from seen xs = xs"
  by (induction xs arbitrary: seen) auto

lemma distinct_from_append:
  "distinct_from seen (xs @ ys) = distinct_from seen xs @ distinct_from (xs @ seen) ys"
proof (induction xs arbitrary: seen)
  case Nil
  show ?case by simp
next
  case (Cons x xs)
  have e: "distinct_from (xs @ x # seen) ys = distinct_from (x # xs @ seen) ys"
    by (subst distinct_from_filter, subst (2) distinct_from_filter) (auto intro: filter_cong)
  show ?case
  proof (cases "x \<in> set seen")
    case True
    have "distinct_from (x # xs @ seen) ys = distinct_from (xs @ seen) ys"
      using True
      by (subst distinct_from_filter, subst (2) distinct_from_filter) (auto intro: filter_cong)
    with True Cons.IH [of seen] show ?thesis by simp
  next
    case False
    with Cons.IH [of "x # seen"] e show ?thesis by simp
  qed
qed

lemma distinct_list_set: "set (distinct_list xs) = set xs"
  by (simp add: distinct_list_def set_distinct_from)

lemma distinct_list_distinct: "distinct (distinct_list xs)"
  by (simp add: distinct_list_def distinct_distinct_from)

lemma distinct_list_id: "distinct xs \<Longrightarrow> distinct_list xs = xs"
  by (simp add: distinct_list_def distinct_from_id)

lemma distinct_list_Cons:
  "distinct_list (x # xs) = x # filter (\<lambda>y. y \<noteq> x) (distinct_list xs)"
  unfolding distinct_list_def
  by (simp, subst distinct_from_filter) simp

lemma distinct_list_snoc:
  "distinct_list (xs @ [c]) = (if c \<in> set xs then distinct_list xs else distinct_list xs @ [c])"
  by (simp add: distinct_list_def distinct_from_append)

lemma distinct_list_append:
  "distinct_list (xs @ ys)
     = distinct_list xs @ filter (\<lambda>y. y \<notin> set xs) (distinct_list ys)"
  unfolding distinct_list_def
  by (simp add: distinct_from_append, subst distinct_from_filter) simp

lemma subseq_distinct_from: "subseq (distinct_from seen xs) xs"
  by (induction xs arbitrary: seen) auto

lemma before_distinct_from:
  "sorted_wrt (before xs) (distinct_from seen xs)"
proof (induction xs arbitrary: seen)
  case Nil
  show ?case by simp
next
  case (Cons x xs)
  have mono: "sorted_wrt (before (x # xs)) (distinct_from s xs)" if s: "x \<in> set s" for s
  proof (rule sorted_wrt_mono_rel [OF _ Cons.IH [of s]])
    fix a b
    assume "a \<in> set (distinct_from s xs)" "b \<in> set (distinct_from s xs)" "before xs a b"
    with s show "before (x # xs) a b"
      by (auto simp: before_def set_distinct_from)
  qed
  show ?case
  proof (cases "x \<in> set seen")
    case True
    with mono [of seen] show ?thesis by simp
  next
    case False
    have "\<forall>b \<in> set (distinct_from (x # seen) xs). before (x # xs) x b"
      by (auto simp: before_def set_distinct_from)
    with False mono [of "x # seen"] show ?thesis by simp
  qed
qed


text \<open>
  C8: the edition search paths are an ordered list without duplicates: the editions
  directory of the language home (when there is one) comes first, then the search paths
  of the distribution, each path kept at its first occurrence only (the result is a
  subsequence of the paths given, and a path stands ahead of another when it occurs ahead
  of the other's first occurrence). Without updating, the
  cache path is appended and the list de-duplicated again (so the cache path is added at
  the end unless it is a search path already); with updating, the provider is given the
  search paths and the cache path as they are.
\<close>

theorem search_paths_ordered_distinct:
  "distinct (getSearchPaths dm lh)
   \<and> set (getSearchPaths dm lh)
       = set (toList (map_option editions lh)) \<union> set (editionSearchPaths (paths dm))
   \<and> sorted_wrt (before (toList (map_option editions lh) @ editionSearchPaths (paths dm)))
       (getSearchPaths dm lh)
   \<and> subseq (getSearchPaths dm lh)
       (toList (map_option editions lh) @ editionSearchPaths (paths dm))
   \<and> getSearchPaths dm None = distinct_list (editionSearchPaths (paths dm))
   \<and> getSearchPaths dm (Some home)
       = editions home
         # filter (\<lambda>p. p \<noteq> editions home) (distinct_list (editionSearchPaths (paths dm)))
   \<and> makeEditionProvider getConfig dm lh True
       = UpdatingEditionProvider (getSearchPaths dm lh) (cachedEditions (paths dm))
           (editionProviders (getConfig dm))
   \<and> makeEditionProvider getConfig dm lh False
       = FileSystemEditionProvider (distinct_list (getSearchPaths dm lh @ [cachedEditions (paths dm)]))
   \<and> distinct_list (getSearchPaths dm lh @ [cachedEditions (paths dm)])
       = (if cachedEditions (paths dm) \<in> set (getSearchPaths dm lh)
          then getSearchPaths dm lh
          else getSearchPaths dm lh @ [cachedEditions (paths dm)])"
proof -
  have d: "distinct (getSearchPaths dm lh)"
    by (simp add: getSearchPaths_def distinct_list_distinct)
  have s: "set (getSearchPaths dm lh)
             = set (toList (map_option editions lh)) \<union> set (editionSearchPaths (paths dm))"
    by (simp add: getSearchPaths_def distinct_list_set)
  have o: "sorted_wrt (before (toList (map_option editions lh) @ editionSearchPaths (paths dm)))
             (getSearchPaths dm lh)"
    by (simp add: getSearchPaths_def distinct_list_def before_distinct_from)
  have q: "subseq (getSearchPaths dm lh)
             (toList (map_option editions lh) @ editionSearchPaths (paths dm))"
    by (simp add: getSearchPaths_def distinct_list_def subseq_distinct_from)
  have n: "getSearchPaths dm None = distinct_list (editionSearchPaths (paths dm))"
    by (simp add: getSearchPaths_def)
  have h: "getSearchPaths dm (Some home)
             = editions home
               # filter (\<lambda>p. p \<noteq> editions home) (distinct_list (editionSearchPaths (paths dm)))"
    by (simp add: getSearchPaths_def distinct_list_Cons)
  have u: "makeEditionProvider getConfig dm lh True
             = UpdatingEditionProvider (getSearchPaths dm lh) (cachedEditions (paths dm))
                 (editionProviders (getConfig dm))"
    by (simp add: makeEditionProvider_def)
  have f: "makeEditionProvider getConfig dm lh False
             = FileSystemEditionProvider
                 (distinct_list (getSearchPaths dm lh @ [cachedEditions (paths dm)]))"
    by (simp add: makeEditionProvider_def)
  have c: "distinct_list (getSearchPaths dm lh @ [cachedEditions (paths dm)])
             = (if cachedEditions (paths dm) \<in> set (getSearchPaths dm lh)
                then getSearchPaths dm lh
                else getSearchPaths dm lh @ [cachedEditions (paths dm)])"
    by (simp add: distinct_list_snoc distinct_list_id [OF d])
  from d s o q n h u f c show ?thesis by blast
qed

theorem search_paths_ordered_distinct_witness:
  "getSearchPaths example_distribution (Some \<lparr>editions = ''/home/editions''\<rparr>)
     = [''/home/editions'', ''/a'', ''/b'']
   \<and> distinct (getSearchPaths example_distribution (Some \<lparr>editions = ''/home/editions''\<rparr>))
   \<and> makeEditionProvider (\<lambda>dm. \<lparr>editionProviders = []\<rparr>) example_distribution
        (Some \<lparr>editions = ''/home/editions''\<rparr>) False
      = FileSystemEditionProvider [''/home/editions'', ''/a'', ''/b'']"
  using search_paths_ordered_distinct
    [of example_distribution "Some \<lparr>editions = ''/home/editions''\<rparr>"
        "\<lparr>editions = ''/home/editions''\<rparr>" "\<lambda>dm. \<lparr>editionProviders = []\<rparr>"]
  by (simp add: example_distribution_def distinct_list_def)

section \<open>Properties of the request handler\<close>

subsection \<open>A stopped actor, and a response stage whose next message it handles\<close>

lemma responseStage_shape:
  "responseStage e i r c m = Some acts \<Longrightarrow>
     \<exists>x. acts = [Tell r x, Stop] \<or> acts = [Tell r x, Cancel c, Stop]"
  by (cases "(e, i, r, c, m)" rule: responseStage.cases) auto

lemma step_stopped:
  "behaviour s = Stopped \<Longrightarrow>
     behaviour (step e ev s) = Stopped \<and> sent (step e ev s) = sent s \<and> called (step e ev s) = called s"
  by (cases ev) (auto split: option.splits list.splits)

lemma exec_stopped:
  "behaviour s = Stopped \<Longrightarrow>
     behaviour (exec e evs s) = Stopped \<and> sent (exec e evs s) = sent s \<and> called (exec e evs s) = called s"
proof (induction evs arbitrary: s)
  case Nil
  then show ?case by simp
next
  case (Cons ev evs)
  from step_stopped [OF Cons.prems, of e ev] Cons.IH [of "step e ev s"]
  show ?case by simp
qed

lemma step_response_head:
  assumes "behaviour s = ResponseStage i r c" "mailbox s = (sn, m) # rest"
    "responseStage e i r c m = Some (Tell r x # acts)"
  shows "ev \<noteq> Process \<Longrightarrow>
           behaviour (step e ev s) = ResponseStage i r c
           \<and> (\<exists>rest'. mailbox (step e ev s) = (sn, m) # rest')
           \<and> sent (step e ev s) = sent s \<and> called (step e ev s) = called s"
    and "behaviour (step e Process s) = Stopped
           \<and> sent (step e Process s) = sent s @ [(r, x)]
           \<and> called (step e Process s) = called s"
proof -
  show "ev \<noteq> Process \<Longrightarrow>
           behaviour (step e ev s) = ResponseStage i r c
           \<and> (\<exists>rest'. mailbox (step e ev s) = (sn, m) # rest')
           \<and> sent (step e ev s) = sent s \<and> called (step e ev s) = called s"
    using assms(1,2) by (cases ev) (auto split: option.splits list.splits)
  from responseStage_shape [OF assms(3)]
  have "acts = [Stop] \<or> acts = [Cancel c, Stop]" by auto
  then show "behaviour (step e Process s) = Stopped
           \<and> sent (step e Process s) = sent s @ [(r, x)]
           \<and> called (step e Process s) = called s"
    using assms by auto
qed

lemma exec_response_head:
  "behaviour s = ResponseStage i r c \<Longrightarrow> mailbox s = (sn, m) # rest \<Longrightarrow>
   responseStage e i r c m = Some (Tell r x # acts) \<Longrightarrow>
     sent (exec e evs s) = (if Process \<in> set evs then sent s @ [(r, x)] else sent s)
     \<and> called (exec e evs s) = called s"
proof (induction evs arbitrary: s rest)
  case Nil
  then show ?case by simp
next
  case (Cons ev evs)
  show ?case
  proof (cases "ev = Process")
    case True
    from step_response_head(2) [OF Cons.prems]
    have st: "behaviour (step e Process s) = Stopped"
      and se: "sent (step e Process s) = sent s @ [(r, x)]"
      and ca: "called (step e Process s) = called s" by simp_all
    from exec_stopped [OF st, of e evs] se ca True show ?thesis by simp
  next
    case False
    from step_response_head(1) [OF Cons.prems False]
    obtain rest' where b: "behaviour (step e ev s) = ResponseStage i r c"
      and mb: "mailbox (step e ev s) = (sn, m) # rest'"
      and se: "sent (step e ev s) = sent s"
      and ca: "called (step e ev s) = called s" by blast
    from Cons.IH [OF b mb Cons.prems(3)] se ca False show ?thesis by simp
  qed
qed


lemma step_keeps_calls:
  assumes "behaviour s \<noteq> RequestStage"
  shows "behaviour (step e ev s) \<noteq> RequestStage \<and> called (step e ev s) = called s"
proof (cases ev)
  case Process
  show ?thesis
  proof (cases "behaviour s")
    case RequestStage
    with assms show ?thesis by simp
  next
    case (ResponseStage i r c)
    show ?thesis
    proof (cases "mailbox s")
      case Nil
      with Process ResponseStage show ?thesis by simp
    next
      case (Cons a rest)
      obtain sn m where a: "a = (sn, m)" by (cases a)
      show ?thesis
      proof (cases "responseStage e i r c m")
        case None
        with Process ResponseStage Cons a show ?thesis by simp
      next
        case (Some acts)
        from responseStage_shape [OF Some] Some Process ResponseStage Cons a
        show ?thesis by auto
      qed
    qed
  next
    case Stopped
    with Process show ?thesis by (auto split: list.splits)
  qed
qed (use assms in \<open>auto split: option.splits list.splits\<close>)

lemma exec_keeps_calls:
  "behaviour s \<noteq> RequestStage \<Longrightarrow> called (exec e evs s) = called s"
proof (induction evs arbitrary: s)
  case Nil
  show ?case by simp
next
  case (Cons ev evs)
  from step_keeps_calls [OF Cons.prems, of e ev] Cons.IH [of "step e ev s"]
  show ?case by simp
qed

lemma perform_agree: "agree f s1 s2 \<Longrightarrow> agree f (perform a s1) (perform a s2)"
  by (cases a) (auto simp: agree_def)

lemma fold_perform_agree:
  "agree f s1 s2 \<Longrightarrow> agree f (fold perform acts s1) (fold perform acts s2)"
  by (induction acts arbitrary: s1 s2) (auto intro: perform_agree)

lemma erase_eq:
  "erase a b m1 = erase a b m2 \<Longrightarrow> m1 = m2 \<or> (m1 = a \<and> m2 = b) \<or> (m1 = b \<and> m2 = a)"
  by (auto simp: erase_def split: if_splits)

lemma receive_agree:
  assumes ag: "agree f s1 s2"
    and same: "\<And>n sn. requestStage e n sn a = requestStage e n sn b"
    and ab: "\<exists>i p. a = Request i p" "\<exists>i p. b = Request i p"
    and ms: "m1 = m2 \<or> (m1 = a \<and> m2 = b) \<or> (m1 = b \<and> m2 = a)"
  shows "receive e s1 sn m1 = receive e s2 sn m2"
proof -
  from ag have b: "behaviour s1 = behaviour s2" and n: "scheduled s1 = scheduled s2"
    by (simp_all add: agree_def)
  show ?thesis
  proof (cases "behaviour s2")
    case RequestStage
    with b n ms same show ?thesis by auto
  next
    case (ResponseStage i r c)
    with b ms ab show ?thesis by auto
  next
    case Stopped
    with b show ?thesis by simp
  qed
qed


lemma step_agree:
  assumes ag: "agree (erase a b) s1 s2"
    and same: "\<And>n sn. requestStage e n sn a = requestStage e n sn b"
    and ab: "\<exists>i p. a = Request i p" "\<exists>i p. b = Request i p"
  shows "agree (erase a b) (step e ev s1) (step e ev s2)"
proof (cases ev)
  case (Arrive sn m)
  with ag show ?thesis by (simp add: agree_def)
next
  case (TimerFires c)
  with ag show ?thesis by (auto simp: agree_def split: option.splits)
next
  case FutureCompletes
  with ag show ?thesis by (auto simp: agree_def split: list.splits)
next
  case Process
  from ag have mb: "map (apsnd (erase a b)) (mailbox s1) = map (apsnd (erase a b)) (mailbox s2)"
    by (simp add: agree_def)
  show ?thesis
  proof (cases "mailbox s1")
    case Nil
    with mb have "mailbox s2 = []" by simp
    with Nil Process ag show ?thesis by simp
  next
    case (Cons h1 rest1)
    with mb obtain h2 rest2 where c2: "mailbox s2 = h2 # rest2"
      by (cases "mailbox s2") auto
    obtain sn1 m1 where h1: "h1 = (sn1, m1)" by (cases h1)
    obtain sn2 m2 where h2: "h2 = (sn2, m2)" by (cases h2)
    from mb Cons c2 h1 h2 have sn: "sn1 = sn2" and er: "erase a b m1 = erase a b m2"
      and rest: "map (apsnd (erase a b)) rest1 = map (apsnd (erase a b)) rest2"
      by simp_all
    from ag rest have ag': "agree (erase a b) (s1\<lparr>mailbox := rest1\<rparr>) (s2\<lparr>mailbox := rest2\<rparr>)"
      by (simp add: agree_def)
    from receive_agree [OF ag same ab erase_eq [OF er]]
    have rc: "receive e s1 sn2 m1 = receive e s2 sn2 m2" .
    show ?thesis
    proof (cases "receive e s2 sn2 m2")
      case None
      with rc Process Cons c2 h1 h2 sn ag' show ?thesis by simp
    next
      case (Some acts)
      with rc Process Cons c2 h1 h2 sn fold_perform_agree [OF ag', of acts]
      show ?thesis by simp
    qed
  qed
qed

lemma exec_agree:
  assumes same: "\<And>n sn. requestStage e n sn a = requestStage e n sn b"
    and ab: "\<exists>i p. a = Request i p" "\<exists>i p. b = Request i p"
  shows "agree (erase a b) s1 s2 \<Longrightarrow> agree (erase a b) (exec e evs s1) (exec e evs s2)"
proof (induction evs arbitrary: s1 s2)
  case Nil
  then show ?case by simp
next
  case (Cons ev evs)
  from step_agree [OF Cons.prems same ab, of ev] Cons.IH
  show ?case by simp
qed

lemma requestStage_cache_hit:
  "semver_parse e vs = Some version \<Longrightarrow>
   findCachedLibrary e (LibraryName ns nm) version = Some libraryPath \<Longrightarrow>
     requestStage e n sn (Request reqId (Params ns nm (PublishedLibraryVersion vs url1)))
     = requestStage e n sn (Request reqId (Params ns nm (PublishedLibraryVersion vs url2)))"
  by (simp add: getOrFetchPublishedPackage_def getCachedPackage_def)


lemma fold_perform_calls:
  "fold perform (map Call cs) s = s\<lparr>called := called s @ cs\<rparr>"
  by (induction cs arbitrary: s) simp_all

lemma request_published_valid:
  assumes "semver_parse e vs = Some version"
  shows "exec e (Arrive client (Request reqId (Params ns nm (PublishedLibraryVersion vs url)))
                 # Process # evs) init
         = exec e evs
             \<lparr>behaviour = ResponseStage reqId client 0,
              mailbox = [],
              timers = [(0, RequestTimeout)],
              futures = [piped (fst (getOrFetchPublishedPackage e (LibraryName ns nm) version url))],
              sent = [],
              called = snd (getOrFetchPublishedPackage e (LibraryName ns nm) version url),
              scheduled = 1\<rparr>"
  using assms
  by (simp add: init_def Let_def fold_perform_calls split: prod.splits)

lemma request_published_invalid:
  assumes "semver_parse e vs = None"
  shows "exec e (Arrive client (Request reqId (Params ns nm (PublishedLibraryVersion vs url)))
                 # Process # evs) init
         = exec e evs
             \<lparr>behaviour = ResponseStage reqId client 0,
              mailbox = [(Self, Failure_msg (InvalidSemverVersionError vs))],
              timers = [(0, RequestTimeout)],
              futures = [],
              sent = [],
              called = [],
              scheduled = 1\<rparr>"
  using assms
  by (simp add: init_def Let_def)

subsection \<open>Timeout\<close>

text \<open>
  C1: when the timeout message is the next message of a handler that awaits its result
  (the timer fired before the lookup delivered anything), then, whatever happens
  afterwards, the handler sends exactly one message: the \<open>RequestTimeout\<close> error for the
  request, to the caller. A result of the lookup that arrives later is never answered. (The
  message is sent as soon as the actor processes its mailbox once.) In particular, for a
  request for the local version, and for a request for a published version that parses:
  when the timer fires once the request has been processed, and before the local library
  manager has answered or the fetch has completed, the caller receives the
  \<open>RequestTimeout\<close> error and nothing else, under every schedule of what follows.
\<close>

theorem timeout_first_single_response:
  "(behaviour s = ResponseStage reqId replyTo cancellable
      \<and> mailbox s = (sender, RequestTimeout) # rest
      \<and> sent_to replyTo s = []
    \<longrightarrow> sent (exec e evs s)
          = (if Process \<in> set evs
             then sent s @ [(replyTo, ResponseError_msg
                                        (ResponseError (Some reqId) Errors_RequestTimeout))]
             else sent s)
        \<and> sent_to replyTo (exec e evs s)
          = (if Process \<in> set evs
             then [ResponseError_msg (ResponseError (Some reqId) Errors_RequestTimeout)]
             else []))
   \<and> (client \<noteq> localLibraryManager e
    \<longrightarrow> sent_to client
          (exec e (Arrive client (Request reqId (Params ns nm LocalLibraryVersion))
                   # Process # TimerFires 0 # evs) init)
          = (if Process \<in> set evs
             then [ResponseError_msg (ResponseError (Some reqId) Errors_RequestTimeout)]
             else []))
   \<and> (semver_parse e vs = Some version
    \<longrightarrow> sent_to client
          (exec e (Arrive client (Request reqId (Params ns nm (PublishedLibraryVersion vs url)))
                   # Process # TimerFires 0 # evs) init)
          = (if Process \<in> set evs
             then [ResponseError_msg (ResponseError (Some reqId) Errors_RequestTimeout)]
             else []))"
proof -
  let ?reply = "ResponseError_msg (ResponseError (Some reqId) Errors_RequestTimeout)"
  have handled: "responseStage e reqId r c RequestTimeout = Some (Tell r ?reply # [Stop])"
    for r c
    by simp
  have general: "sent (exec e evs s)
          = (if Process \<in> set evs then sent s @ [(replyTo, ?reply)] else sent s)
        \<and> sent_to replyTo (exec e evs s) = (if Process \<in> set evs then [?reply] else [])"
    if b: "behaviour s = ResponseStage reqId replyTo cancellable"
      and m: "mailbox s = (sender, RequestTimeout) # rest"
      and n: "sent_to replyTo s = []"
  proof -
    from exec_response_head [OF b m handled, of evs]
    have "sent (exec e evs s)
            = (if Process \<in> set evs then sent s @ [(replyTo, ?reply)] else sent s)"
      by simp
    with n show ?thesis
      by (simp add: sent_to_def)
  qed
  have local: "sent_to client
          (exec e (Arrive client (Request reqId (Params ns nm LocalLibraryVersion))
                   # Process # TimerFires 0 # evs) init)
          = (if Process \<in> set evs then [?reply] else [])"
    if c: "client \<noteq> localLibraryManager e"
  proof -
    let ?s = "\<lparr>behaviour = ResponseStage reqId client 0,
               mailbox = [(Self, RequestTimeout)],
               timers = [],
               futures = [],
               sent = [(localLibraryManager e, GetPackage (LibraryName ns nm))],
               called = [],
               scheduled = 1\<rparr>"
    have run: "exec e (Arrive client (Request reqId (Params ns nm LocalLibraryVersion))
                       # Process # TimerFires 0 # evs) init
               = exec e evs ?s"
      by (simp add: init_def Let_def)
    from exec_response_head [of ?s reqId client 0 Self RequestTimeout "[]" e, OF _ _ handled, of evs]
    show ?thesis
      unfolding run using c by (simp add: sent_to_def)
  qed
  have published: "sent_to client
          (exec e (Arrive client (Request reqId (Params ns nm (PublishedLibraryVersion vs url)))
                   # Process # TimerFires 0 # evs) init)
          = (if Process \<in> set evs then [?reply] else [])"
    if v: "semver_parse e vs = Some version"
  proof -
    let ?s = "\<lparr>behaviour = ResponseStage reqId client 0,
               mailbox = [(Self, RequestTimeout)],
               timers = [],
               futures = [piped (fst (getOrFetchPublishedPackage e (LibraryName ns nm) version url))],
               sent = [],
               called = snd (getOrFetchPublishedPackage e (LibraryName ns nm) version url),
               scheduled = 1\<rparr>"
    have run: "exec e (Arrive client (Request reqId (Params ns nm (PublishedLibraryVersion vs url)))
                       # Process # TimerFires 0 # evs) init
               = exec e evs ?s"
      unfolding request_published_valid [OF v] by simp
    from exec_response_head [of ?s reqId client 0 Self RequestTimeout "[]" e, OF _ _ handled, of evs]
    show ?thesis
      unfolding run by (simp add: sent_to_def)
  qed
  from general local published show ?thesis by blast
qed

theorem timeout_first_single_response_witness:
  "behaviour (exec example_env
       [Arrive (Actor ''client'') (example_request ''https://r.example''), Process, TimerFires 0]
       init)
     = ResponseStage ''7'' (Actor ''client'') 0
   \<and> mailbox (exec example_env
       [Arrive (Actor ''client'') (example_request ''https://r.example''), Process, TimerFires 0]
       init)
     = [(Self, RequestTimeout)]
   \<and> futures (exec example_env
       [Arrive (Actor ''client'') (example_request ''https://r.example''), Process, TimerFires 0]
       init)
     = [GetPackageResponse_msg
          (GetPackageResponse (LibraryName ''Standard'' ''Table'') ''MIT'' None)]
   \<and> sent_to (Actor ''client'')
       (exec example_env [FutureCompletes, Process, Process]
          (exec example_env
             [Arrive (Actor ''client'') (example_request ''https://r.example''), Process,
              TimerFires 0]
             init))
     = [ResponseError_msg (ResponseError (Some ''7'') Errors_RequestTimeout)]
   \<and> Actor ''client'' \<noteq> localLibraryManager example_env
   \<and> sent_to (Actor ''client'')
       (exec example_env
          [Arrive (Actor ''client'') (Request ''7'' (Params ''Standard'' ''Table'' LocalLibraryVersion)),
           Process, TimerFires 0, Process,
           Arrive (Actor ''localLibraryManager'')
             (GetPackageResponse_msg
                (GetPackageResponse (LibraryName ''Standard'' ''Table'') ''MIT'' None)),
           Process]
          init)
     = [ResponseError_msg (ResponseError (Some ''7'') Errors_RequestTimeout)]
   \<and> semver_parse example_env ''1.2.0'' = Some (SemVer 1 2 0)
   \<and> sent_to (Actor ''client'')
       (exec example_env
          [Arrive (Actor ''client'') (example_request ''https://r.example''), Process,
           TimerFires 0, FutureCompletes, Process, Process]
          init)
     = [ResponseError_msg (ResponseError (Some ''7'') Errors_RequestTimeout)]"
proof -
  define s where "s = exec example_env
       [Arrive (Actor ''client'') (example_request ''https://r.example''), Process, TimerFires 0]
       init"
  have b: "behaviour s = ResponseStage ''7'' (Actor ''client'') 0"
    and m: "mailbox s = (Self, RequestTimeout) # []"
    and f: "futures s = [GetPackageResponse_msg
          (GetPackageResponse (LibraryName ''Standard'' ''Table'') ''MIT'' None)]"
    and n: "sent_to (Actor ''client'') s = []"
    unfolding s_def
    by (simp_all add: example_env_def example_request_def example_config_def init_def
          getOrFetchPublishedPackage_def getCachedPackage_def fetchPublishedPackage_def
          packageResponse_def sent_to_def Let_def)
  have c: "Actor ''client'' \<noteq> localLibraryManager example_env"
    and v: "semver_parse example_env ''1.2.0'' = Some (SemVer 1 2 0)"
    by (simp_all add: example_env_def)
  have p1: "Process \<in> set [FutureCompletes, Process, Process]"
    by simp
  have p2: "Process \<in> set [Process,
              Arrive (Actor ''localLibraryManager'')
                (GetPackageResponse_msg
                   (GetPackageResponse (LibraryName ''Standard'' ''Table'') ''MIT'' None)),
              Process]"
    by simp
  note late_fetch = timeout_first_single_response
         [of s "''7''" "Actor ''client''" 0 Self "[]" example_env
             "[FutureCompletes, Process, Process]" "Actor ''client''" "''Standard''" "''Table''"
             "''1.2.0''" "SemVer 1 2 0" "''https://r.example''"]
  note late_answer = timeout_first_single_response
         [of s "''7''" "Actor ''client''" 0 Self "[]" example_env
             "[Process,
               Arrive (Actor ''localLibraryManager'')
                 (GetPackageResponse_msg
                    (GetPackageResponse (LibraryName ''Standard'' ''Table'') ''MIT'' None)),
               Process]" "Actor ''client''" "''Standard''" "''Table''"
             "''1.2.0''" "SemVer 1 2 0" "''https://r.example''"]
  from late_fetch [THEN conjunct1, THEN mp, OF conjI [OF b conjI [OF m n]], THEN conjunct2]
  have one: "sent_to (Actor ''client'') (exec example_env [FutureCompletes, Process, Process] s)
               = [ResponseError_msg (ResponseError (Some ''7'') Errors_RequestTimeout)]"
    by (simp only: p1 if_True)
  from late_answer [THEN conjunct2, THEN conjunct1, THEN mp, OF c]
  have two: "sent_to (Actor ''client'')
       (exec example_env
          [Arrive (Actor ''client'') (Request ''7'' (Params ''Standard'' ''Table'' LocalLibraryVersion)),
           Process, TimerFires 0, Process,
           Arrive (Actor ''localLibraryManager'')
             (GetPackageResponse_msg
                (GetPackageResponse (LibraryName ''Standard'' ''Table'') ''MIT'' None)),
           Process]
          init)
     = [ResponseError_msg (ResponseError (Some ''7'') Errors_RequestTimeout)]"
    by (simp only: p2 if_True)
  from late_fetch [THEN conjunct2, THEN conjunct2, THEN mp, OF v]
  have three: "sent_to (Actor ''client'')
       (exec example_env
          [Arrive (Actor ''client'') (example_request ''https://r.example''), Process,
           TimerFires 0, FutureCompletes, Process, Process]
          init)
     = [ResponseError_msg (ResponseError (Some ''7'') Errors_RequestTimeout)]"
    unfolding example_request_def
    by (simp only: p1 if_True)
  show ?thesis
    using b m f one c two v three unfolding s_def
    by - (intro conjI, assumption+)
qed

subsection \<open>Cache hit, cache corruption\<close>

text \<open>
  C2: when the cache holds the library at the version asked for,
  \<open>getOrFetchPublishedPackage\<close> answers from the cached package descriptor and makes no
  call to the network: it looks the library up in the cache and reads its descriptor,
  nothing else; and a handler given such a request never makes a network call, whatever
  happens afterwards.
\<close>

theorem cache_hit_no_network:
  assumes "findCachedLibrary e (LibraryName ns nm) version = Some libraryPath"
  shows "getOrFetchPublishedPackage e (LibraryName ns nm) version repositoryUrl
           = (map_sum id packageResponse (readPackage e libraryPath),
              [FindCachedLibrary (LibraryName ns nm) version, ReadPackage libraryPath])
         \<and> filter is_network_call
             (snd (getOrFetchPublishedPackage e (LibraryName ns nm) version repositoryUrl)) = []
         \<and> (semver_parse e vs = Some version \<longrightarrow>
              called (exec e (Arrive client
                                (Request reqId
                                   (Params ns nm (PublishedLibraryVersion vs repositoryUrl)))
                              # Process # evs) init)
                = [FindCachedLibrary (LibraryName ns nm) version, ReadPackage libraryPath])"
proof -
  have g: "getOrFetchPublishedPackage e (LibraryName ns nm) version repositoryUrl
             = (map_sum id packageResponse (readPackage e libraryPath),
                [FindCachedLibrary (LibraryName ns nm) version, ReadPackage libraryPath])"
    using assms by (simp add: getOrFetchPublishedPackage_def getCachedPackage_def)
  have "called (exec e (Arrive client
                          (Request reqId (Params ns nm (PublishedLibraryVersion vs repositoryUrl)))
                        # Process # evs) init)
          = [FindCachedLibrary (LibraryName ns nm) version, ReadPackage libraryPath]"
    if v: "semver_parse e vs = Some version"
    unfolding request_published_valid [OF v]
    by (simp add: exec_keeps_calls g)
  with g show ?thesis by simp
qed

theorem cache_hit_no_network_witness:
  "findCachedLibrary cached_env (LibraryName ''Standard'' ''Table'') (SemVer 1 2 0)
     = Some ''/cache/Standard/Table/1.2.0''
   \<and> semver_parse cached_env ''1.2.0'' = Some (SemVer 1 2 0)
   \<and> getOrFetchPublishedPackage cached_env (LibraryName ''Standard'' ''Table'') (SemVer 1 2 0)
       ''https://r.example''
     = (Inr (GetPackageResponse (LibraryName ''Standard'' ''Table'') ''MIT'' None),
        [FindCachedLibrary (LibraryName ''Standard'' ''Table'') (SemVer 1 2 0),
         ReadPackage ''/cache/Standard/Table/1.2.0''])
   \<and> called (exec cached_env
               [Arrive (Actor ''client'') (example_request ''https://r.example''), Process,
                TimerFires 0, FutureCompletes, Process, Process]
               init)
     = [FindCachedLibrary (LibraryName ''Standard'' ''Table'') (SemVer 1 2 0),
        ReadPackage ''/cache/Standard/Table/1.2.0'']"
proof -
  have h: "findCachedLibrary cached_env (LibraryName ''Standard'' ''Table'') (SemVer 1 2 0)
             = Some ''/cache/Standard/Table/1.2.0''"
    by (simp add: cached_env_def corrupt_env_def example_env_def)
  have v: "semver_parse cached_env ''1.2.0'' = Some (SemVer 1 2 0)"
    by (simp add: cached_env_def corrupt_env_def example_env_def)
  from cache_hit_no_network
         [OF h, of "''https://r.example''" "''1.2.0''" "Actor ''client''" "''7''"
            "[TimerFires 0, FutureCompletes, Process, Process]"] h v
  show ?thesis
    by (simp add: cached_env_def corrupt_env_def example_env_def example_config_def
          packageResponse_def example_request_def)
qed

text \<open>
  C3: when the cache holds the library and its package descriptor cannot be read,
  \<open>getOrFetchPublishedPackage\<close> fails with the error of that read and does not fetch the
  package from the repository.
\<close>

theorem cached_parse_failure_surfaces:
  assumes "findCachedLibrary e libraryName version = Some libraryPath"
    and "readPackage e libraryPath = Inl failure"
  shows "getOrFetchPublishedPackage e libraryName version repositoryUrl
           = (Inl failure, [FindCachedLibrary libraryName version, ReadPackage libraryPath])
         \<and> filter is_network_call
             (snd (getOrFetchPublishedPackage e libraryName version repositoryUrl)) = []"
  using assms by (simp add: getOrFetchPublishedPackage_def getCachedPackage_def)

theorem cached_parse_failure_surfaces_witness:
  "findCachedLibrary corrupt_env (LibraryName ''Standard'' ''Table'') (SemVer 1 2 0)
     = Some ''/cache/Standard/Table/1.2.0''
   \<and> readPackage corrupt_env ''/cache/Standard/Table/1.2.0''
     = Inl (Throwable ''malformed package descriptor'')
   \<and> fetchPackageConfig corrupt_env ''https://r.example'' (LibraryName ''Standard'' ''Table'')
       (SemVer 1 2 0)
     = Inr example_config
   \<and> getOrFetchPublishedPackage corrupt_env (LibraryName ''Standard'' ''Table'') (SemVer 1 2 0)
       ''https://r.example''
     = (Inl (Throwable ''malformed package descriptor''),
        [FindCachedLibrary (LibraryName ''Standard'' ''Table'') (SemVer 1 2 0),
         ReadPackage ''/cache/Standard/Table/1.2.0''])"
proof -
  have h: "findCachedLibrary corrupt_env (LibraryName ''Standard'' ''Table'') (SemVer 1 2 0)
             = Some ''/cache/Standard/Table/1.2.0''"
    and r: "readPackage corrupt_env ''/cache/Standard/Table/1.2.0''
             = Inl (Throwable ''malformed package descriptor'')"
    and f: "fetchPackageConfig corrupt_env ''https://r.example''
              (LibraryName ''Standard'' ''Table'') (SemVer 1 2 0) = Inr example_config"
    by (simp_all add: corrupt_env_def example_env_def)
  from cached_parse_failure_surfaces [OF h r, of "''https://r.example''"] h r f
  show ?thesis by simp
qed

subsection \<open>Fetching a published package, rejecting a malformed version\<close>

text \<open>
  C6: a request for a published version that parses and is not in the cache, where the
  repository returns a descriptor with license MIT and no component groups: once the
  fetch has completed and the handler has processed its result, the caller has received
  exactly one message, the result with license \<open>Some MIT\<close> and component groups \<open>None\<close>;
  the handler has looked in the cache and fetched from the repository, once each.
\<close>

theorem published_fetch_scenario:
  assumes "semver_parse e vs = Some version"
    and "findCachedLibrary e (LibraryName ns nm) version = None"
    and "fetchPackageConfig e url (LibraryName ns nm) version = Inr config"
    and "license config = ''MIT''"
    and "componentGroups config = None"
  shows "sent (exec e (Arrive client (Request reqId (Params ns nm (PublishedLibraryVersion vs url)))
                       # Process # FutureCompletes # evs) init)
           = (if Process \<in> set evs
              then [(client, ResponseResult_msg
                               (ResponseResult reqId (Result (Some ''MIT'') None)))]
              else [])
         \<and> called (exec e (Arrive client (Request reqId (Params ns nm (PublishedLibraryVersion vs url)))
                           # Process # FutureCompletes # evs) init)
           = [FindCachedLibrary (LibraryName ns nm) version,
              FetchPackageConfig url (LibraryName ns nm) version]"
proof -
  let ?response = "GetPackageResponse (LibraryName (namespace config) (moduleName config)) ''MIT'' None"
  let ?s = "\<lparr>behaviour = ResponseStage reqId client 0,
             mailbox = [(Self, GetPackageResponse_msg ?response)],
             timers = [(0, RequestTimeout)],
             futures = [],
             sent = [],
             called = [FindCachedLibrary (LibraryName ns nm) version,
                       FetchPackageConfig url (LibraryName ns nm) version],
             scheduled = 1\<rparr>"
  have g: "getOrFetchPublishedPackage e (LibraryName ns nm) version url
             = (Inr ?response,
                [FindCachedLibrary (LibraryName ns nm) version,
                 FetchPackageConfig url (LibraryName ns nm) version])"
    using assms(2-5)
    by (simp add: getOrFetchPublishedPackage_def getCachedPackage_def fetchPublishedPackage_def
          packageResponse_def)
  have run: "exec e (Arrive client (Request reqId (Params ns nm (PublishedLibraryVersion vs url)))
                     # Process # FutureCompletes # evs) init
             = exec e evs ?s"
    unfolding request_published_valid [OF assms(1)]
    by (simp add: g)
  have handled: "responseStage e reqId client 0 (GetPackageResponse_msg ?response)
                   = Some (Tell client (ResponseResult_msg
                                          (ResponseResult reqId (Result (Some ''MIT'') None)))
                           # [Cancel 0, Stop])"
    by (simp add: unless_def)
  from exec_response_head [of ?s reqId client 0 Self "GetPackageResponse_msg ?response" "[]" e,
         OF _ _ handled, of evs]
  show ?thesis
    unfolding run by simp
qed

theorem published_fetch_scenario_witness:
  "semver_parse example_env ''1.2.0'' = Some (SemVer 1 2 0)
   \<and> findCachedLibrary example_env (LibraryName ''Standard'' ''Table'') (SemVer 1 2 0) = None
   \<and> fetchPackageConfig example_env ''https://r.example'' (LibraryName ''Standard'' ''Table'')
       (SemVer 1 2 0) = Inr example_config
   \<and> license example_config = ''MIT''
   \<and> componentGroups example_config = None
   \<and> sent (exec example_env
             [Arrive (Actor ''client'') (example_request ''https://r.example''), Process,
              FutureCompletes, Process, TimerFires 0, Process]
             init)
     = [(Actor ''client'',
         ResponseResult_msg (ResponseResult ''7'' (Result (Some ''MIT'') None)))]"
proof -
  have v: "semver_parse example_env ''1.2.0'' = Some (SemVer 1 2 0)"
    and c: "findCachedLibrary example_env (LibraryName ''Standard'' ''Table'') (SemVer 1 2 0)
              = None"
    and f: "fetchPackageConfig example_env ''https://r.example''
              (LibraryName ''Standard'' ''Table'') (SemVer 1 2 0) = Inr example_config"
    and l: "license example_config = ''MIT''"
    and g: "componentGroups example_config = None"
    by (simp_all add: example_env_def example_config_def)
  from published_fetch_scenario
         [OF v c f l g, of "Actor ''client''" "''7''" "[Process, TimerFires 0, Process]"]
       v c f l g
  show ?thesis by (simp add: example_request_def)
qed

text \<open>
  C7: a request for a published version whose version string does not parse: the handler
  sends itself \<open>InvalidSemverVersionError\<close> with the version string and arms the timer,
  nothing else; it looks nothing up in the cache and fetches nothing, whatever happens
  afterwards, and the one message it sends is to the caller: the error that the failure mapper makes of
  \<open>InvalidSemverVersionError\<close> with the version string as it was given. (The mapper is
  defined elsewhere in the repository and a parameter here.)
\<close>

theorem invalid_version_rejected:
  assumes "semver_parse e vs = None"
  shows "requestStage e cancellable client
           (Request reqId (Params ns nm (PublishedLibraryVersion vs url)))
           = Some [TellSelf (Failure_msg (InvalidSemverVersionError vs)),
                   ScheduleOnce cancellable (timeout e) RequestTimeout,
                   Become (ResponseStage reqId client cancellable)]
         \<and> called (exec e (Arrive client (Request reqId (Params ns nm (PublishedLibraryVersion vs url)))
                         # Process # evs) init) = []
         \<and> sent (exec e (Arrive client (Request reqId (Params ns nm (PublishedLibraryVersion vs url)))
                         # Process # evs) init)
           = (if Process \<in> set evs
              then [(client, ResponseError_msg (mapFailure e (InvalidSemverVersionError vs)))]
              else [])"
proof -
  let ?s = "\<lparr>behaviour = ResponseStage reqId client 0,
             mailbox = [(Self, Failure_msg (InvalidSemverVersionError vs))],
             timers = [(0, RequestTimeout)],
             futures = [],
             sent = [],
             called = [],
             scheduled = 1\<rparr>"
  have handled: "responseStage e reqId client 0 (Failure_msg (InvalidSemverVersionError vs))
                   = Some (Tell client (ResponseError_msg
                                          (mapFailure e (InvalidSemverVersionError vs)))
                           # [Cancel 0, Stop])"
    by simp
  from exec_response_head
         [of ?s reqId client 0 Self "Failure_msg (InvalidSemverVersionError vs)" "[]" e,
          OF _ _ handled, of evs]
  show ?thesis
    unfolding request_published_invalid [OF assms]
    using assms by (simp add: exec_keeps_calls)
qed

theorem invalid_version_rejected_witness:
  "semver_parse example_env ''1.x'' = None
   \<and> called (exec example_env
               [Arrive (Actor ''client'')
                  (Request ''7'' (Params ''Standard'' ''Table''
                                    (PublishedLibraryVersion ''1.x'' ''https://r.example''))),
                Process, Process, TimerFires 0, Process]
               init) = []
   \<and> sent (exec example_env
               [Arrive (Actor ''client'')
                  (Request ''7'' (Params ''Standard'' ''Table''
                                    (PublishedLibraryVersion ''1.x'' ''https://r.example''))),
                Process, Process, TimerFires 0, Process]
               init)
     = [(Actor ''client'',
         ResponseError_msg (mapFailure example_env (InvalidSemverVersionError ''1.x'')))]"
proof -
  have v: "semver_parse example_env ''1.x'' = None"
    by (simp add: example_env_def)
  from invalid_version_rejected
         [OF v, of 0 "Actor ''client''" "''7''" "''Standard''" "''Table''" "''https://r.example''"
            "[Process, TimerFires 0, Process]"] v
  show ?thesis by simp
qed

subsection \<open>Relaying a response\<close>

text \<open>
  C9: the handler relays a \<open>GetPackageResponse\<close> as one result to the caller, cancels the
  timer and stops. In the result the license is absent when the response's license string
  is empty (and the string otherwise), and the component groups are absent when the
  response has component groups whose new and extended groups are both empty.
\<close>

theorem relayed_empty_fields_absent:
  "\<exists>res. responseStage e reqId replyTo cancellable
            (GetPackageResponse_msg (GetPackageResponse libraryName lic groupsOpt))
          = Some [Tell replyTo (ResponseResult_msg (ResponseResult reqId res)),
                  Cancel cancellable, Stop]
        \<and> result_license res = (if lic = [] then None else Some lic)
        \<and> (lic = [] \<longrightarrow> result_license res = None)
        \<and> (\<forall>groups. groupsOpt = Some groups \<and> newGroups groups = []
                       \<and> extendedGroups groups = []
                     \<longrightarrow> result_componentGroups res = None)"
  by (auto simp: unless_def)

theorem relayed_empty_fields_absent_witness:
  "\<exists>res. responseStage example_env ''7'' (Actor ''client'') 0
            (GetPackageResponse_msg
               (GetPackageResponse (LibraryName ''local'' ''Lib'') []
                  (Some \<lparr>newGroups = [], extendedGroups = []\<rparr>)))
          = Some [Tell (Actor ''client'') (ResponseResult_msg (ResponseResult ''7'' res)),
                  Cancel 0, Stop]
        \<and> result_license res = None
        \<and> result_componentGroups res = None"
  using relayed_empty_fields_absent
          [of example_env "''7''" "Actor ''client''" 0 "LibraryName ''local'' ''Lib''" "[]"
              "Some \<lparr>newGroups = [], extendedGroups = []\<rparr>"]
  by auto

subsection \<open>The repository URL on a cache hit\<close>

text \<open>
  C10: two requests for the same published library and version that differ in the
  repository URL only, where the version parses and the cache holds the library: under
  every schedule of what happens after the request has arrived, the two runs send the
  same messages and make the same calls; and \<open>getOrFetchPublishedPackage\<close> returns the
  same for both URLs.
\<close>

theorem cache_hit_independent_of_url:
  assumes "semver_parse e vs = Some version"
    and "findCachedLibrary e (LibraryName ns nm) version = Some libraryPath"
  shows "getOrFetchPublishedPackage e (LibraryName ns nm) version url1
           = getOrFetchPublishedPackage e (LibraryName ns nm) version url2
         \<and> sent (exec e (Arrive client (Request reqId (Params ns nm (PublishedLibraryVersion vs url1)))
                         # evs) init)
           = sent (exec e (Arrive client (Request reqId (Params ns nm (PublishedLibraryVersion vs url2)))
                           # evs) init)
         \<and> called (exec e (Arrive client (Request reqId (Params ns nm (PublishedLibraryVersion vs url1)))
                           # evs) init)
           = called (exec e (Arrive client (Request reqId (Params ns nm (PublishedLibraryVersion vs url2)))
                             # evs) init)"
proof -
  let ?a = "Request reqId (Params ns nm (PublishedLibraryVersion vs url1))"
  let ?b = "Request reqId (Params ns nm (PublishedLibraryVersion vs url2))"
  have "agree (erase ?a ?b) (step e (Arrive client ?a) init) (step e (Arrive client ?b) init)"
    by (simp add: agree_def init_def erase_def)
  from exec_agree [OF requestStage_cache_hit [OF assms] _ _ this, of evs]
  have "agree (erase ?a ?b) (exec e evs (step e (Arrive client ?a) init))
          (exec e evs (step e (Arrive client ?b) init))"
    by blast
  then show ?thesis
    using assms by (simp add: agree_def getOrFetchPublishedPackage_def getCachedPackage_def)
qed

theorem cache_hit_independent_of_url_witness:
  "semver_parse cached_env ''1.2.0'' = Some (SemVer 1 2 0)
   \<and> findCachedLibrary cached_env (LibraryName ''Standard'' ''Table'') (SemVer 1 2 0)
     = Some ''/cache/Standard/Table/1.2.0''
   \<and> sent (exec cached_env
             [Arrive (Actor ''client'') (example_request ''https://r.example''), Process,
              FutureCompletes, Process]
             init)
     = sent (exec cached_env
               [Arrive (Actor ''client'') (example_request ''https://other.example''), Process,
                FutureCompletes, Process]
               init)
   \<and> sent (exec cached_env
             [Arrive (Actor ''client'') (example_request ''https://r.example''), Process,
              FutureCompletes, Process]
             init)
     = [(Actor ''client'',
         ResponseResult_msg (ResponseResult ''7'' (Result (Some ''MIT'') None)))]"
proof -
  have v: "semver_parse cached_env ''1.2.0'' = Some (SemVer 1 2 0)"
    and h: "findCachedLibrary cached_env (LibraryName ''Standard'' ''Table'') (SemVer 1 2 0)
              = Some ''/cache/Standard/Table/1.2.0''"
    by (simp_all add: cached_env_def corrupt_env_def example_env_def)
  have r: "sent (exec cached_env
             [Arrive (Actor ''client'') (example_request ''https://r.example''), Process,
              FutureCompletes, Process]
             init)
     = [(Actor ''client'',
         ResponseResult_msg (ResponseResult ''7'' (Result (Some ''MIT'') None)))]"
    by (simp add: cached_env_def corrupt_env_def example_env_def example_config_def
          example_request_def init_def Let_def getOrFetchPublishedPackage_def
          getCachedPackage_def packageResponse_def unless_def)
  from cache_hit_independent_of_url
         [OF v h, of "''https://r.example''" "''https://other.example''" "Actor ''client''"
            "''7''" "[Process, FutureCompletes, Process]"] v h r
  show ?thesis by (simp add: example_request_def)
qed

section \<open>Properties of the edition resolution\<close>

lemma resolveEdition_cycle_step:
  "parent raw = Some n \<Longrightarrow> n \<in> set visited \<Longrightarrow>
     resolveEdition store visited raw = Inl (EditionCycleDetected n)"
  by (subst resolveEdition.simps) simp

lemma resolveEdition_parent_step:
  "parent raw = Some n \<Longrightarrow> n \<notin> set visited \<Longrightarrow> map_of store n = Some (Inr parentRaw) \<Longrightarrow>
     resolveEdition store visited raw =
       (case resolveEdition store (n # visited) parentRaw of
          Inl err \<Rightarrow> Inl err
        | Inr parentResolved \<Rightarrow> Inr (merge raw parentResolved))"
  by (subst resolveEdition.simps) simp

lemma resolveEdition_root_step:
  "parent raw = None \<Longrightarrow> resolveEdition store visited raw = Inr (root raw)"
  by (subst resolveEdition.simps) simp

lemma ancestor_path_Cons:
  "ancestor_path store raw (n # ns) \<Longrightarrow> parent raw = Some n"
  by (cases ns) auto

lemma ancestor_path_Cons2:
  "ancestor_path store raw (n # m # ns) \<Longrightarrow>
     \<exists>parentRaw. map_of store n = Some (Inr parentRaw) \<and> ancestor_path store parentRaw (m # ns)"
  by (auto split: option.splits sum.splits)

lemma cycle_on_path:
  "ancestor_path store raw ns \<Longrightarrow> \<not> distinct ns \<or> set ns \<inter> set visited \<noteq> {} \<Longrightarrow>
     \<exists>n \<in> set ns. resolveEdition store visited raw = Inl (EditionCycleDetected n)"
proof (induction ns arbitrary: raw visited)
  case Nil
  then show ?case by simp
next
  case (Cons n ns)
  from Cons.prems(1) have par: "parent raw = Some n"
    by (rule ancestor_path_Cons)
  show ?case
  proof (cases "n \<in> set visited")
    case True
    with par show ?thesis
      by (simp add: resolveEdition_cycle_step)
  next
    case False
    with Cons.prems(2) have rep: "\<not> distinct ns \<or> set ns \<inter> set (n # visited) \<noteq> {}"
      by auto
    then obtain m ns' where ns: "ns = m # ns'"
      by (cases ns) auto
    from Cons.prems(1) [unfolded ns] ancestor_path_Cons2
    obtain parentRaw where found: "map_of store n = Some (Inr parentRaw)"
      and path: "ancestor_path store parentRaw ns"
      unfolding ns by blast
    from Cons.IH [OF path rep]
    obtain k where k: "k \<in> set ns"
      and "resolveEdition store (n # visited) parentRaw = Inl (EditionCycleDetected k)"
      by blast
    with resolveEdition_parent_step [OF par False found]
    have "resolveEdition store visited raw = Inl (EditionCycleDetected k)"
      by simp
    with k show ?thesis by auto
  qed
qed



lemma unvisited_decreases:
  assumes "n \<notin> set visited" and "map_of store n = Some y"
  shows "card (fst ` set store - set (n # visited)) < card (fst ` set store - set visited)"
proof -
  from assms(2) have "n \<in> fst ` set store"
    by (auto dest!: map_of_SomeD intro: rev_image_eqI)
  with assms(1) have "fst ` set store - set (n # visited) \<subset> fst ` set store - set visited"
    by auto
  then show ?thesis
    by (intro psubset_card_mono) simp_all
qed

lemma resolveWithin_enough:
  "card (fst ` set store - set visited) < depth \<Longrightarrow>
     resolveWithin depth store visited raw = Some (resolveEdition store visited raw)"
proof (induction depth arbitrary: visited raw)
  case 0
  then show ?case by simp
next
  case (Suc depth)
  show ?case
  proof (cases "parent raw")
    case None
    then show ?thesis
      by (simp add: resolveEdition_root_step)
  next
    case (Some n)
    show ?thesis
    proof (cases "n \<in> set visited")
      case True
      with Some show ?thesis
        by (simp add: resolveEdition_cycle_step)
    next
      case False
      show ?thesis
      proof (cases "map_of store n")
        case None
        with Some False show ?thesis
          by (subst resolveEdition.simps) simp
      next
        case found: (Some y)
        show ?thesis
        proof (cases y)
          case (Inl message)
          with Some False found show ?thesis
            by (subst resolveEdition.simps) simp
        next
          case (Inr parentRaw)
          from unvisited_decreases [OF False found] Suc.prems
          have "card (fst ` set store - set (n # visited)) < depth"
            by simp
          from Suc.IH [OF this, of parentRaw] Some False found Inr
          show ?thesis
            by (simp add: resolveEdition_parent_step split: sum.splits)
        qed
      qed
    qed
  qed
qed

lemma resolveWithin_store:
  "resolveWithin (Suc (length store)) store [] raw = Some (resolve store raw)"
proof -
  have "card (fst ` set store) \<le> length store"
    by (metis card_image_le card_length le_trans List.finite_set)
  then show ?thesis
    unfolding resolve_def by (intro resolveWithin_enough) simp
qed

text \<open>
  C4: resolving a child edition whose parent is found and resolves: the engine version is
  the child's when it gives one and the resolved parent's otherwise; the repositories
  (and the libraries) are the child's followed by the resolved parent's, each entry kept
  at its first occurrence only, so the child's entries come first and the parent adds
  only the entries the child does not have. Resolving the child with repositories B, C
  under the parent \<open>P\<close> with engine 1.0 and repositories A, B gives engine 1.0 and
  repositories B, C, A.
\<close>

theorem resolve_merge_precedence:
  assumes "parent child = Some p"
    and "map_of store p = Some (Inr parentRaw)"
    and "resolveEdition store [p] parentRaw = Inr parentResolved"
  shows "(\<exists>r. manager_resolveEdition store child = Inr r
            \<and> resolvedEngineVersion r
                = (case engineVersion child of
                     Some v \<Rightarrow> Some v
                   | None \<Rightarrow> resolvedEngineVersion parentResolved)
            \<and> resolvedRepositories r
                = distinct_list (entries (repositories child) @ resolvedRepositories parentResolved)
            \<and> resolvedRepositories r
                = distinct_list (entries (repositories child))
                  @ filter (\<lambda>x. x \<notin> set (entries (repositories child)))
                      (distinct_list (resolvedRepositories parentResolved))
            \<and> distinct (resolvedRepositories r)
            \<and> resolvedLibraries r
                = distinct_list (entries (libraries child))
                  @ filter (\<lambda>x. x \<notin> set (entries (libraries child)))
                      (distinct_list (resolvedLibraries parentResolved))
            \<and> distinct (resolvedLibraries r))
         \<and> manager_resolveEdition [(''P'', Inr edition_P)] edition_C
             = Inr \<lparr>resolvedEngineVersion = Some (SemVer 1 0 0),
                    resolvedRepositories = [repo_B, repo_C, repo_A],
                    resolvedLibraries = []\<rparr>"
proof -
  have "resolveEdition store [] child = Inr (merge child parentResolved)"
    using resolveEdition_parent_step [OF assms(1) _ assms(2), of "[]"] assms(3) by simp
  then have general: "\<exists>r. manager_resolveEdition store child = Inr r
            \<and> resolvedEngineVersion r
                = (case engineVersion child of
                     Some v \<Rightarrow> Some v
                   | None \<Rightarrow> resolvedEngineVersion parentResolved)
            \<and> resolvedRepositories r
                = distinct_list (entries (repositories child) @ resolvedRepositories parentResolved)
            \<and> resolvedRepositories r
                = distinct_list (entries (repositories child))
                  @ filter (\<lambda>x. x \<notin> set (entries (repositories child)))
                      (distinct_list (resolvedRepositories parentResolved))
            \<and> distinct (resolvedRepositories r)
            \<and> resolvedLibraries r
                = distinct_list (entries (libraries child))
                  @ filter (\<lambda>x. x \<notin> set (entries (libraries child)))
                      (distinct_list (resolvedLibraries parentResolved))
            \<and> distinct (resolvedLibraries r)"
    by (simp add: manager_resolveEdition_def resolve_def merge_def distinct_list_distinct
          distinct_list_append [symmetric])
  have root_P: "resolveEdition [(''P'', Inr edition_P)] [''P''] edition_P = Inr (root edition_P)"
    by (simp add: resolveEdition_root_step edition_P_def)
  have "resolveEdition [(''P'', Inr edition_P)] [] edition_C
          = Inr (merge edition_C (root edition_P))"
    using resolveEdition_parent_step
            [of edition_C "''P''" "[]" "[(''P'', Inr edition_P)]" edition_P] root_P
    by (simp add: edition_C_def)
  then have example: "manager_resolveEdition [(''P'', Inr edition_P)] edition_C
             = Inr \<lparr>resolvedEngineVersion = Some (SemVer 1 0 0),
                    resolvedRepositories = [repo_B, repo_C, repo_A],
                    resolvedLibraries = []\<rparr>"
    by (simp add: manager_resolveEdition_def resolve_def merge_def root_def edition_C_def
          edition_P_def distinct_list_def repo_A_def repo_B_def repo_C_def)
  from general example show ?thesis by blast
qed

theorem resolve_merge_precedence_witness:
  "parent edition_C = Some ''P''
   \<and> map_of [(''P'', Inr edition_P)] ''P'' = Some (Inr edition_P)
   \<and> resolveEdition [(''P'', Inr edition_P)] [''P''] edition_P
       = Inr \<lparr>resolvedEngineVersion = Some (SemVer 1 0 0),
              resolvedRepositories = [repo_A, repo_B],
              resolvedLibraries = []\<rparr>
   \<and> manager_resolveEdition [(''P'', Inr edition_P)] edition_C
       = Inr \<lparr>resolvedEngineVersion = Some (SemVer 1 0 0),
              resolvedRepositories = [repo_B, repo_C, repo_A],
              resolvedLibraries = []\<rparr>"
proof -
  have a: "parent edition_C = Some ''P''"
    by (simp add: edition_C_def)
  have b: "map_of [(''P'', Inr edition_P)] ''P'' = Some (Inr edition_P)"
    by simp
  have c: "resolveEdition [(''P'', Inr edition_P)] [''P''] edition_P
       = Inr \<lparr>resolvedEngineVersion = Some (SemVer 1 0 0),
              resolvedRepositories = [repo_A, repo_B],
              resolvedLibraries = []\<rparr>"
    by (simp add: resolveEdition_root_step edition_P_def root_def)
  from resolve_merge_precedence [OF a b c] a b c
  show ?thesis by simp
qed

text \<open>
  C5: when the successive parents met from an edition repeat a name, however long the
  path to the repetition, resolution returns the cycle error for a name on that path,
  and it does so within a recursion depth of one more than the number of entries of the
  store. (Resolution is a total function: each recursive call adds to the visited names
  a name of the store that was not among them.)
\<close>

theorem resolve_cycle_detected:
  assumes "ancestor_path store raw names"
    and "\<not> distinct names"
  shows "\<exists>n \<in> set names.
           manager_resolveEdition store raw = Inl (EditionCycleDetected n)
           \<and> resolveWithin (Suc (length store)) store [] raw
               = Some (Inl (EditionCycleDetected n))"
  using cycle_on_path [OF assms(1), of "[]"] assms(2)
  unfolding manager_resolveEdition_def resolveWithin_store resolve_def
  by simp

theorem resolve_cycle_detected_witness:
  "ancestor_path cyclic_store edition_C [''P'', ''Q'', ''P'']
   \<and> \<not> distinct [''P'', ''Q'', ''P'']
   \<and> manager_resolveEdition cyclic_store edition_C = Inl (EditionCycleDetected ''P'')
   \<and> resolveWithin 3 cyclic_store [] edition_C = Some (Inl (EditionCycleDetected ''P''))"
proof -
  have a: "ancestor_path cyclic_store edition_C [''P'', ''Q'', ''P'']"
    by (simp add: cyclic_store_def edition_C_def)
  have b: "\<not> distinct [''P'', ''Q'', ''P'']"
    by simp
  have c: "manager_resolveEdition cyclic_store edition_C \<noteq> Inl (EditionCycleDetected ''Q'')"
    by (simp add: manager_resolveEdition_def resolve_def resolveEdition.simps cyclic_store_def
          edition_C_def)
  have l: "Suc (length cyclic_store) = 3"
    by (simp add: cyclic_store_def)
  from resolve_cycle_detected [OF a b] a b c
  show ?thesis unfolding l by auto
qed

end
